theory Spec2Isabelle
  imports Main
begin

section \<open>JavaScript values and observable effects\<close>

text \<open>
  The gulpfile is glue code: what it does is call out to the logger, the terminal bell,
  completion callbacks, event emitters and child processes. Each such call is an
  \<open>effect\<close>; a function of the gulpfile is modelled as the list of effects it performs,
  in order.
\<close>

datatype js_value = Undefined | Null | JBool bool | JNum int | JStr string

fun truthy :: "js_value \<Rightarrow> bool" where
  "truthy Undefined = False"
| "truthy Null = False"
| "truthy (JBool b) = b"
| "truthy (JNum n) = (n \<noteq> 0)"
| "truthy (JStr s) = (s \<noteq> [])"

text \<open>Decimal rendering of an integer, as a template literal renders a number.\<close>

definition digit :: "nat \<Rightarrow> char" where
  "digit d = ''0123456789'' ! (d mod 10)"

function string_of_nat :: "nat \<Rightarrow> string" where
  "string_of_nat n =
     (if n < 10 then [digit n] else string_of_nat (n div 10) @ [digit (n mod 10)])"
  by pat_completeness auto
termination
  by (relation "measure (\<lambda>n. n)") auto

definition string_of_int :: "int \<Rightarrow> string" where
  "string_of_int i =
     (if i < 0 then ''-'' @ string_of_nat (nat (- i)) else string_of_nat (nat i))"

text \<open>
  An \<open>Error\<close> object: its \<open>name\<close> and its \<open>message\<close>. \<open>new Error(m)\<close> has the
  name \<open>Error\<close>.
\<close>

datatype js_error = JsError (err_name: string) (message: string)

definition new_Error :: "string \<Rightarrow> js_error" where
  "new_Error m = JsError ''Error'' m"

text \<open>\<open>Error.prototype.toString\<close>, which a template literal applies to an error.\<close>

definition error_toString :: "js_error \<Rightarrow> string" where
  "error_toString e =
     (if err_name e = [] then message e
      else if message e = [] then err_name e
      else err_name e @ '': '' @ message e)"

text \<open>
  What the gulpfile hands to \<open>onError\<close>: an error object (from an \<open>error\<close> event of a
  stream or of a child process) or a non-zero exit code (line 93).
\<close>

datatype failure = Err js_error | Code int

text \<open>
  The receiver \<open>this\<close> of \<open>onError\<close>: undefined when it is called as a plain function
  (strict mode), or the object it was registered on, which may or may not have an
  \<open>emit\<close> method.
\<close>

datatype receiver = NoReceiver | Receiver (has_emit: bool)

datatype effect =
    GutilLog string
  | GutilBeep
  | Emit string
  | Cb "js_error option"
  | UnhandledRejection js_error
  | SasslintTask string bool bool
  | Kill nat

section \<open>Paths\<close>

definition IGNORE :: "string list" where
  "IGNORE = [''!**/.#*'', ''!**/flycheck_*'']"

definition JS_TESTS :: "string list" where
  "JS_TESTS = [''lib/**/*.js'', ''index.js''] @ IGNORE"

section \<open>The error sink\<close>

text \<open>
  \<open>chalk.red\<close> only colours the text; the logged message is kept as the text itself.
  \<open>err.message || `Task failed with code: ${err}`\<close>: a number has no \<open>message\<close>, and an
  empty message is falsy.
\<close>

definition chalk_red :: "string \<Rightarrow> string" where
  "chalk_red s = s"

fun failure_text :: "failure \<Rightarrow> string" where
  "failure_text (Err e) =
     (if message e \<noteq> [] then message e
      else ''Task failed with code: '' @ error_toString e)"
| "failure_text (Code c) = ''Task failed with code: '' @ string_of_int c"

fun emits :: "receiver \<Rightarrow> bool" where
  "emits NoReceiver = False"
| "emits (Receiver e) = e"

definition onError :: "receiver \<Rightarrow> failure \<Rightarrow> effect list" where
  "onError this err =
     [GutilLog (chalk_red (failure_text err)), GutilBeep]
     @ (if emits this then [Emit ''end''] else [])"

section \<open>The process supervisor\<close>

text \<open>
  The two handlers \<open>spawnTask\<close> registers on the child process. The exit code is
  \<open>None\<close> when the child was ended by a signal (\<open>null\<close> in Node), which is falsy like 0.
\<close>

definition on_error_event :: "bool \<Rightarrow> js_error \<Rightarrow> effect list" where
  "on_error_event failOnError err =
     (if failOnError then [GutilBeep, Cb (Some err)]
      else onError NoReceiver (Err err) @ [Cb None])"

definition on_exit_event :: "bool \<Rightarrow> int option \<Rightarrow> effect list" where
  "on_exit_event failOnError code =
     (case code of
        None \<Rightarrow> [Cb None]
      | Some c \<Rightarrow>
          if c \<noteq> 0 then
            (if failOnError
             then [GutilBeep, Cb (Some (new_Error (''Task failed with code '' @ string_of_int c)))]
             else onError NoReceiver (Code c) @ [Cb None])
          else [Cb None])"

text \<open>
  A child process handle, with the policy its handlers closed over. The \<open>children\<close>
  store holds every handle \<open>spawn\<close> has returned; \<open>spawned\<close> is the array of the
  gulpfile (line 60), holding references (pids) into that store. \<open>live\<close> is not a
  variable of the program: it is the operating system's view, the children that are
  still running.
\<close>

record child =
  c_command :: string
  c_args :: "string list"
  c_failOnError :: bool

record world =
  spawned :: "nat list"
  children :: "nat \<rightharpoonup> child"
  next_pid :: nat
  live :: "nat set"
  effects :: "effect list"

definition init :: world where
  "init = \<lparr>spawned = [], children = Map.empty, next_pid = 0, live = {}, effects = []\<rparr>"

text \<open>
  \<open>spawnTask\<close> (lines 76 to 98): the handle \<open>spawn\<close> returns is pushed on \<open>spawned\<close>,
  with the two handlers registered on it. \<open>failOnError = true\<close> is the default of the
  fourth parameter.
\<close>

definition spawnTask :: "string \<Rightarrow> string list \<Rightarrow> bool option \<Rightarrow> world \<Rightarrow> world" where
  "spawnTask cmd as failOnError w =
     (let p = next_pid w;
          foe = (case failOnError of None \<Rightarrow> True | Some b \<Rightarrow> b)
      in w\<lparr>spawned := spawned w @ [p],
           children := (children w)(p \<mapsto> \<lparr>c_command = cmd, c_args = as, c_failOnError = foe\<rparr>),
           next_pid := Suc p\<rparr>)"

text \<open>The handler of the parent's \<open>exit\<close> event (lines 61 to 65).\<close>

definition process_on_exit :: "world \<Rightarrow> world" where
  "process_on_exit w = w\<lparr>effects := effects w @ map Kill (spawned w)\<rparr>"

text \<open>
  What can happen to the supervisor: a task calls \<open>spawnTask\<close> (and the operating system
  starts the command, or fails to), a child emits \<open>error\<close>, a child exits, the parent
  exits. An \<open>error\<close> event does not say whether the child still runs, so it leaves
  \<open>live\<close> as it is.
\<close>

datatype event =
    SpawnTask string "string list" "bool option" bool
  | ChildError nat js_error
  | ChildExit nat "int option"
  | ProcessExit

fun step :: "world \<Rightarrow> event \<Rightarrow> world" where
  "step w (SpawnTask cmd as failOnError started) =
     (let w' = spawnTask cmd as failOnError w
      in if started then w'\<lparr>live := insert (next_pid w) (live w')\<rparr> else w')"
| "step w (ChildError p err) =
     (case children w p of
        None \<Rightarrow> w
      | Some c \<Rightarrow> w\<lparr>effects := effects w @ on_error_event (c_failOnError c) err\<rparr>)"
| "step w (ChildExit p code) =
     (case children w p of
        None \<Rightarrow> w
      | Some c \<Rightarrow> w\<lparr>live := live w - {p},
                    effects := effects w @ on_exit_event (c_failOnError c) code\<rparr>)"
| "step w ProcessExit = process_on_exit w"

definition run :: "event list \<Rightarrow> world \<Rightarrow> world" where
  "run es w = foldl step w es"

section \<open>Arguments of the JavaScript test run\<close>

datatype opt_value = OArr "string list" | OBool bool | OStr string

fun opt_text :: "opt_value \<Rightarrow> string" where
  "opt_text (OBool b) = (if b then ''true'' else ''false'')"
| "opt_text (OStr s) = s"
| "opt_text (OArr vs) = concat (map (\<lambda>v. v @ '','') (butlast vs)) @ (if vs = [] then [] else last vs)"

definition mochaReporter :: "js_value \<Rightarrow> string" where
  "mochaReporter verbose = (if truthy verbose then ''spec'' else ''dot'')"

definition covReporters :: "js_value \<Rightarrow> string list" where
  "covReporters verbose =
     (if truthy verbose then [''text'', ''html'', ''lcovonly'']
      else [''text-summary'', ''html'', ''lcovonly''])"

definition obj :: "js_value \<Rightarrow> (string \<times> opt_value) list" where
  "obj verbose =
     [(''include'', OArr JS_TESTS),
      (''reporter'', OArr (covReporters verbose)),
      (''cache'', OBool True),
      (''all'', OBool True),
      (''report-dir'', OStr ''./jscov'')]"

definition unshift :: "'a \<Rightarrow> 'a list \<Rightarrow> 'a list" where
  "unshift x xs = x # xs"

definition option_string :: "string \<Rightarrow> string \<Rightarrow> string" where
  "option_string key val = ''--'' @ key @ ''='' @ val"

fun add_option :: "string \<times> opt_value \<Rightarrow> string list \<Rightarrow> string list" where
  "add_option (key, OArr vals) as = fold (\<lambda>val a. unshift (option_string key val) a) vals as"
| "add_option (key, v) as = unshift (option_string key (opt_text v)) as"

definition getJsTestArgs :: "js_value \<Rightarrow> string list" where
  "getJsTestArgs verbose =
     fold add_option (obj verbose)
       [''./node_modules/.bin/mocha'', ''--reporter'', mochaReporter verbose]"

text \<open>The tasks \<open>jstest\<close> and \<open>jstest-nofail\<close> (lines 199 to 205).\<close>

definition jstest :: "world \<Rightarrow> world" where
  "jstest w = spawnTask ''./node_modules/.bin/nyc'' (getJsTestArgs (JBool True)) None w"

definition jstest_nofail :: "world \<Rightarrow> world" where
  "jstest_nofail w =
     spawnTask ''./node_modules/.bin/nyc'' (getJsTestArgs Undefined) (Some False) w"

text \<open>
  The options as the claim describes them: one string per scalar option, one per element
  of an array-valued option.
\<close>

fun option_strings :: "string \<times> opt_value \<Rightarrow> string list" where
  "option_strings (key, OArr vals) = map (option_string key) vals"
| "option_strings (key, v) = [option_string key (opt_text v)]"

section \<open>Task registrations\<close>

text \<open>
  Every \<open>gulp.task(name, deps, fn)\<close> of the gulpfile, in source order, as the name and
  its list of prerequisite names (empty where the call passes none).
\<close>

type_synonym registry = "(string \<times> string list) list"

definition gulp_tasks :: registry where
  "gulp_tasks =
     [(''prettier'', []),
      (''eslint'', [''prettier'']),
      (''eslint-nofail'', []),
      (''sasslint'', []),
      (''sasslint-nofail'', []),
      (''sass'', []),
      (''sasstest'', []),
      (''jstest'', []),
      (''jstest-nofail'', []),
      (''test'', [''sasstest'', ''jstest'']),
      (''browser-sync'', []),
      (''compile'', [''sass'', ''minify'']),
      (''default'', [''compile'', ''eslint'', ''sasslint'', ''test'']),
      (''serve'', [''watch'', ''browser-sync'']),
      (''dev'', [''prettier'', ''eslint-nofail'', ''sasslint-nofail'', ''test'', ''watch'']),
      (''watch'', []),
      (''copy-fonts'', []),
      (''jsmin'', []),
      (''svg-clean'', []),
      (''svgmin'', [''svg-clean'']),
      (''imagemin'', []),
      (''minify'', [''jsmin'', ''svgmin'', ''imagemin'', ''copy-fonts''])]"

text \<open>The prerequisite relation of a registry: \<open>(t, p)\<close> when \<open>p\<close> is a prerequisite of \<open>t\<close>.\<close>

definition prereq :: "registry \<Rightarrow> (string \<times> string) set" where
  "prereq reg = {(t, p). \<exists>ps. map_of reg t = Some ps \<and> p \<in> set ps}"

text \<open>A height for each task of the gulpfile, used to show that the graph has no cycle.\<close>

definition height :: "string \<Rightarrow> nat" where
  "height t =
     (if t = ''default'' then 4
      else if t = ''compile'' then 3
      else if t = ''minify'' \<or> t = ''dev'' then 2
      else if t = ''eslint'' \<or> t = ''test'' \<or> t = ''svgmin'' \<or> t = ''serve'' then 1
      else 0)"

section \<open>The watch handler on the Sass sources\<close>

text \<open>The event a gulp watcher passes to its callback: its \<open>type\<close> and the file's \<open>path\<close>.\<close>

record watch_event =
  ev_type :: string
  ev_path :: string

definition sass_watch_handler :: "watch_event \<Rightarrow> effect list" where
  "sass_watch_handler ev =
     (if ev_type ev = ''added'' \<or> ev_type ev = ''changed''
      then [SasslintTask (ev_path ev) False True]
      else [])"

section \<open>The task \<open>svg-clean\<close>\<close>

text \<open>
  \<open>del\<close> returns a promise. \<open>p.then(f)\<close> with a single handler runs \<open>f\<close> when \<open>p\<close> is
  fulfilled; when \<open>p\<close> is rejected the handler is skipped and the rejection passes to the
  promise \<open>then\<close> returned, which here has no handler.
\<close>

datatype 'a outcome = Fulfilled 'a | Rejected js_error

fun promise_then :: "'a outcome \<Rightarrow> ('a \<Rightarrow> effect list) \<Rightarrow> effect list" where
  "promise_then (Fulfilled v) f = f v"
| "promise_then (Rejected e) f = [UnhandledRejection e]"

definition svg_clean :: "string list outcome \<Rightarrow> effect list" where
  "svg_clean del_result = promise_then del_result (\<lambda>_. [Cb None])"

text \<open>A task has signalled completion when its callback has been invoked.\<close>

fun is_Cb :: "effect \<Rightarrow> bool" where
  "is_Cb (Cb _) = True"
| "is_Cb _ = False"

definition signals_completion :: "effect list \<Rightarrow> bool" where
  "signals_completion es = list_ex is_Cb es"

text \<open>
  What holds of every world the supervisor reaches: \<open>spawned\<close> lists every pid handed
  out so far, in order, and every running child is in it.
\<close>

definition supervised :: "world \<Rightarrow> bool" where
  "supervised w = (spawned w = [0..<next_pid w] \<and> live w \<subseteq> set (spawned w))"

section \<open>The dependency resolver\<close>

text \<open>
  Modelled from the spec: the errors of the dependency resolver, which is part of gulp and
  not of the gulpfile. An unknown task is a requested or prerequisite name that is not
  registered; a cyclic dependency is a cycle in the prerequisite graph.
\<close>

datatype resolve_error = UnknownTaskError string | CyclicDependencyError string

text \<open>
  Modelled from the spec: \<open>get(name)\<close> of the task registry, which fails with
  UnknownTaskError when the name is absent. Only the prerequisites of the task matter here.
\<close>

definition get_task :: "registry \<Rightarrow> string \<Rightarrow> resolve_error + string list" where
  "get_task reg name =
     (case map_of reg name of None \<Rightarrow> Inl (UnknownTaskError name) | Some ps \<Rightarrow> Inr ps)"

text \<open>
  Modelled from the spec: the depth-first traversal of the dependency resolver. A task that
  is already in the order is skipped; a task that is in progress on the current path
  (\<open>gray\<close>) is a cycle; otherwise the prerequisites are visited in the order declared,
  each one fully before the next, and then the task itself is put at the end of the order.
\<close>

function visit :: "registry \<Rightarrow> string list \<Rightarrow> string list \<Rightarrow> string \<Rightarrow> resolve_error + string list"
  and visit_all :: "registry \<Rightarrow> string list \<Rightarrow> string list \<Rightarrow> string list \<Rightarrow> resolve_error + string list"
where
  "visit reg gray visited n =
     (if n \<in> set visited then Inr visited
      else if n \<in> set gray then Inl (CyclicDependencyError n)
      else case get_task reg n of
             Inl e \<Rightarrow> Inl e
           | Inr ps \<Rightarrow>
               (case visit_all reg (n # gray) visited ps of
                  Inl e \<Rightarrow> Inl e
                | Inr visited' \<Rightarrow> Inr (visited' @ [n])))"
| "visit_all reg gray visited [] = Inr visited"
| "visit_all reg gray visited (p # ps) =
     (case visit reg gray visited p of
        Inl e \<Rightarrow> Inl e
      | Inr visited' \<Rightarrow> visit_all reg gray visited' ps)"
  by pat_completeness auto
termination
proof (relation "inv_image (less_than <*lex*> less_than)
         (\<lambda>x. case x of
                 Inl (reg, gray, visited, n) \<Rightarrow> (card (fst ` set reg - set gray), 0)
               | Inr (reg, gray, visited, ps) \<Rightarrow> (card (fst ` set reg - set gray), Suc (length ps)))",
       goal_cases)
  case 1
  show ?case by (intro wf_inv_image wf_lex_prod wf_less_than)
next
  case (2 reg gray visited n ps)
  from 2(3) have "n \<in> fst ` set reg"
    by (auto simp: get_task_def split: option.splits dest!: map_of_SomeD intro: rev_image_eqI)
  with 2(2) have "card (fst ` set reg - set (n # gray)) < card (fst ` set reg - set gray)"
    by (intro psubset_card_mono) auto
  then show ?case by simp
next
  case 3
  show ?case by simp
next
  case 4
  show ?case by simp
qed

text \<open>
  Modelled from the spec: \<open>resolve(name)\<close>, the traversal started from the requested task
  with nothing visited and nothing in progress.
\<close>

definition resolve :: "registry \<Rightarrow> string \<Rightarrow> resolve_error + string list" where
  "resolve reg name = visit reg [] [] name"


text \<open>
  Modelled from the spec: a run resolves the order first and starts the task actions only
  then, in the resolved order; an error of the resolution ends the run with no action
  started. The result is the error, if any, and the actions started.
\<close>

definition run_task :: "registry \<Rightarrow> string \<Rightarrow> resolve_error option \<times> string list" where
  "run_task reg name =
     (case resolve reg name of Inl e \<Rightarrow> (Some e, []) | Inr order \<Rightarrow> (None, order))"

text \<open>The two scenarios of the spec: tasks A, B, C, and the cycle between A and B.\<close>

definition abc_tasks :: registry where
  "abc_tasks = [(''A'', []), (''B'', [''A'']), (''C'', [''A'', ''B''])]"

definition ab_cycle :: registry where
  "ab_cycle = [(''A'', [''B'']), (''B'', [''A''])]"

text \<open>\<open>precedes xs a b\<close>: both are in \<open>xs\<close>, and \<open>a\<close> comes first.\<close>

fun index_of :: "'a list \<Rightarrow> 'a \<Rightarrow> nat" where
  "index_of [] x = 0"
| "index_of (y # ys) x = (if x = y then 0 else Suc (index_of ys x))"

definition precedes :: "'a list \<Rightarrow> 'a \<Rightarrow> 'a \<Rightarrow> bool" where
  "precedes xs a b = (a \<in> set xs \<and> b \<in> set xs \<and> index_of xs a < index_of xs b)"

text \<open>
  A registry is a task graph when every prerequisite of a registered task is itself
  registered, so that every edge of the prerequisite relation joins two tasks.
\<close>

definition task_graph :: "registry \<Rightarrow> bool" where
  "task_graph reg =
     list_all (\<lambda>t. case map_of reg t of
                      None \<Rightarrow> True
                    | Some ps \<Rightarrow> list_all (\<lambda>p. map_of reg p \<noteq> None) ps)
       (map fst reg)"

text \<open>The list without repetitions, each element at its first occurrence.\<close>

definition keep_first :: "'a list \<Rightarrow> 'a list" where
  "keep_first xs = rev (remdups (rev xs))"

text \<open>
  The invariant of the traversal: the order has no repetition, and every task in it is
  registered with all its prerequisites earlier in the order.
\<close>

definition ordered :: "registry \<Rightarrow> string list \<Rightarrow> bool" where
  "ordered reg xs =
     (distinct xs \<and>
      (\<forall>i < length xs. \<exists>ps. map_of reg (xs ! i) = Some ps \<and> set ps \<subseteq> set (take i xs)))"

section \<open>Properties of the error sink and the process supervisor\<close>

declare string_of_nat.simps [simp del]

lemma string_of_nat_small: "n < 10 \<Longrightarrow> string_of_nat n = [digit n]"
  by (simp add: string_of_nat.simps)

lemma string_of_int_digit: "0 \<le> i \<Longrightarrow> i < 10 \<Longrightarrow> string_of_int i = [digit (nat i)]"
  by (simp add: string_of_int_def string_of_nat_small)

text \<open>
  C9: every call of \<open>onError\<close> logs the message and beeps; it emits \<open>end\<close> exactly when
  its receiver has an \<open>emit\<close> method, and otherwise does nothing more.
\<close>

theorem onError_effects:
  "onError this err =
     (if emits this
      then [GutilLog (chalk_red (failure_text err)), GutilBeep, Emit ''end'']
      else [GutilLog (chalk_red (failure_text err)), GutilBeep])"
  by (simp add: onError_def)

theorem onError_effects_witness:
  "onError (Receiver True) (Code 2) = [GutilLog ''Task failed with code: 2'', GutilBeep, Emit ''end'']
   \<and> onError NoReceiver (Code 2) = [GutilLog ''Task failed with code: 2'', GutilBeep]"
  using onError_effects [of "Receiver True" "Code 2"] onError_effects [of NoReceiver "Code 2"]
  by (simp add: chalk_red_def string_of_int_digit digit_def)





text \<open>
  C10: \<open>getJsTestArgs\<close> ends with the mocha binary, \<open>--reporter\<close> and the reporter
  (\<open>spec\<close> when \<open>verbose\<close> is truthy, \<open>dot\<close> otherwise); before them come only
  \<open>--key=value\<close> strings, one per scalar option and one per element of an array-valued
  option (the last option first, since each is put at the front). Running \<open>jstest\<close>
  pushes one new child on \<open>spawned\<close>, which is nyc started with these arguments ending in
  mocha, \<open>--reporter\<close>, \<open>spec\<close>, failing on error; running \<open>jstest-nofail\<close> does the same
  with the arguments ending in \<open>dot\<close>, not failing on error.
\<close>

lemma fold_unshift:
  "fold (\<lambda>val a. unshift (f val) a) vals as = rev (map f vals) @ as"
  by (induction vals arbitrary: as) (simp_all add: unshift_def)

lemma add_option_strings: "add_option kv as = rev (option_strings kv) @ as"
  by (cases kv rule: option_strings.cases) (simp_all add: fold_unshift unshift_def)

lemma fold_add_option:
  "fold add_option opts as = rev (concat (map option_strings opts)) @ as"
  by (induction opts arbitrary: as) (simp_all add: add_option_strings)

lemma option_strings_shape:
  "s \<in> set (option_strings kv) \<Longrightarrow> \<exists>val. s = ''--'' @ fst kv @ ''='' @ val"
  by (cases kv rule: option_strings.cases) (auto simp: option_string_def)

theorem getJsTestArgs_shape:
  "getJsTestArgs verbose
     = rev (concat (map option_strings (obj verbose)))
       @ [''./node_modules/.bin/mocha'', ''--reporter'', (if truthy verbose then ''spec'' else ''dot'')]
   \<and> (\<forall>s \<in> set (rev (concat (map option_strings (obj verbose)))).
         \<exists>key val. key \<in> fst ` set (obj verbose) \<and> s = ''--'' @ key @ ''='' @ val)
   \<and> length (concat (map option_strings (obj verbose))) = 10
   \<and> spawned (jstest w) = spawned w @ [next_pid w]
   \<and> children (jstest w) (next_pid w)
       = Some \<lparr>c_command = ''./node_modules/.bin/nyc'',
               c_args = rev (concat (map option_strings (obj (JBool True))))
                        @ [''./node_modules/.bin/mocha'', ''--reporter'', ''spec''],
               c_failOnError = True\<rparr>
   \<and> spawned (jstest_nofail w) = spawned w @ [next_pid w]
   \<and> children (jstest_nofail w) (next_pid w)
       = Some \<lparr>c_command = ''./node_modules/.bin/nyc'',
               c_args = rev (concat (map option_strings (obj Undefined)))
                        @ [''./node_modules/.bin/mocha'', ''--reporter'', ''dot''],
               c_failOnError = False\<rparr>"
proof -
  have a: "getJsTestArgs verbose
     = rev (concat (map option_strings (obj verbose)))
       @ [''./node_modules/.bin/mocha'', ''--reporter'', (if truthy verbose then ''spec'' else ''dot'')]"
    by (simp only: getJsTestArgs_def fold_add_option mochaReporter_def)
  have b: "\<forall>s \<in> set (rev (concat (map option_strings (obj verbose)))).
         \<exists>key val. key \<in> fst ` set (obj verbose) \<and> s = ''--'' @ key @ ''='' @ val"
  proof
    fix s assume "s \<in> set (rev (concat (map option_strings (obj verbose))))"
    then obtain kv where kv: "kv \<in> set (obj verbose)" "s \<in> set (option_strings kv)"
      by auto
    from option_strings_shape [OF kv(2)] kv(1)
    show "\<exists>key val. key \<in> fst ` set (obj verbose) \<and> s = ''--'' @ key @ ''='' @ val"
      by blast
  qed
  have c: "length (concat (map option_strings (obj verbose))) = 10"
    by (simp add: obj_def JS_TESTS_def IGNORE_def covReporters_def)
  have args: "getJsTestArgs v
     = rev (concat (map option_strings (obj v)))
       @ [''./node_modules/.bin/mocha'', ''--reporter'', (if truthy v then ''spec'' else ''dot'')]"
    for v
    by (simp only: getJsTestArgs_def fold_add_option mochaReporter_def)
  have d: "spawned (jstest w) = spawned w @ [next_pid w]"
    by (simp add: jstest_def spawnTask_def Let_def)
  have e: "children (jstest w) (next_pid w)
       = Some \<lparr>c_command = ''./node_modules/.bin/nyc'',
               c_args = rev (concat (map option_strings (obj (JBool True))))
                        @ [''./node_modules/.bin/mocha'', ''--reporter'', ''spec''],
               c_failOnError = True\<rparr>"
    using args [of "JBool True"] by (simp add: jstest_def spawnTask_def Let_def)
  have f: "spawned (jstest_nofail w) = spawned w @ [next_pid w]"
    by (simp add: jstest_nofail_def spawnTask_def Let_def)
  have g: "children (jstest_nofail w) (next_pid w)
       = Some \<lparr>c_command = ''./node_modules/.bin/nyc'',
               c_args = rev (concat (map option_strings (obj Undefined)))
                        @ [''./node_modules/.bin/mocha'', ''--reporter'', ''dot''],
               c_failOnError = False\<rparr>"
    using args [of Undefined] by (simp add: jstest_nofail_def spawnTask_def Let_def)
  from a b c d e f g show ?thesis by blast
qed

theorem getJsTestArgs_shape_witness:
  "getJsTestArgs (JBool True)
     = [''--report-dir=./jscov'', ''--all=true'', ''--cache=true'',
        ''--reporter=lcovonly'', ''--reporter=html'', ''--reporter=text'',
        ''--include=!**/flycheck_*'', ''--include=!**/.#*'', ''--include=index.js'',
        ''--include=lib/**/*.js'',
        ''./node_modules/.bin/mocha'', ''--reporter'', ''spec'']
   \<and> getJsTestArgs Undefined
     = [''--report-dir=./jscov'', ''--all=true'', ''--cache=true'',
        ''--reporter=lcovonly'', ''--reporter=html'', ''--reporter=text-summary'',
        ''--include=!**/flycheck_*'', ''--include=!**/.#*'', ''--include=index.js'',
        ''--include=lib/**/*.js'',
        ''./node_modules/.bin/mocha'', ''--reporter'', ''dot'']
   \<and> spawned (jstest init) = [0]
   \<and> children (jstest init) 0
       = Some \<lparr>c_command = ''./node_modules/.bin/nyc'',
               c_args = [''--report-dir=./jscov'', ''--all=true'', ''--cache=true'',
                         ''--reporter=lcovonly'', ''--reporter=html'', ''--reporter=text'',
                         ''--include=!**/flycheck_*'', ''--include=!**/.#*'',
                         ''--include=index.js'', ''--include=lib/**/*.js'',
                         ''./node_modules/.bin/mocha'', ''--reporter'', ''spec''],
               c_failOnError = True\<rparr>
   \<and> spawned (jstest_nofail init) = [0]
   \<and> children (jstest_nofail init) 0
       = Some \<lparr>c_command = ''./node_modules/.bin/nyc'',
               c_args = [''--report-dir=./jscov'', ''--all=true'', ''--cache=true'',
                         ''--reporter=lcovonly'', ''--reporter=html'', ''--reporter=text-summary'',
                         ''--include=!**/flycheck_*'', ''--include=!**/.#*'',
                         ''--include=index.js'', ''--include=lib/**/*.js'',
                         ''./node_modules/.bin/mocha'', ''--reporter'', ''dot''],
               c_failOnError = False\<rparr>"
  using getJsTestArgs_shape [of "JBool True" init] getJsTestArgs_shape [of Undefined init]
  by (simp add: obj_def JS_TESTS_def IGNORE_def covReporters_def option_string_def init_def)

section \<open>Properties of the registered tasks\<close>

text \<open>
  C6: \<open>compile\<close> has exactly the prerequisites \<open>sass\<close> and \<open>minify\<close>; \<open>minify\<close> has
  \<open>jsmin\<close>, \<open>svgmin\<close>, \<open>imagemin\<close> and \<open>copy-fonts\<close>; \<open>default\<close> has \<open>compile\<close>,
  \<open>eslint\<close>, \<open>sasslint\<close> and \<open>test\<close>; each of the three names is registered once.
\<close>

theorem composite_prerequisites:
  "map_of gulp_tasks ''compile'' = Some [''sass'', ''minify'']
   \<and> map_of gulp_tasks ''minify'' = Some [''jsmin'', ''svgmin'', ''imagemin'', ''copy-fonts'']
   \<and> map_of gulp_tasks ''default'' = Some [''compile'', ''eslint'', ''sasslint'', ''test'']
   \<and> filter (\<lambda>t. fst t = ''compile'') gulp_tasks = [(''compile'', [''sass'', ''minify''])]
   \<and> filter (\<lambda>t. fst t = ''minify'') gulp_tasks
       = [(''minify'', [''jsmin'', ''svgmin'', ''imagemin'', ''copy-fonts''])]
   \<and> filter (\<lambda>t. fst t = ''default'') gulp_tasks
       = [(''default'', [''compile'', ''eslint'', ''sasslint'', ''test''])]"
  by (simp add: gulp_tasks_def)

text \<open>
  C4: the prerequisite graph of the gulpfile has no cycle: no task is among its own
  transitive prerequisites.
\<close>

lemma prereq_height: "(t, p) \<in> prereq gulp_tasks \<Longrightarrow> height p < height t"
  by (auto simp: prereq_def gulp_tasks_def height_def split: if_splits)

theorem gulp_tasks_acyclic: "(t, t) \<notin> (prereq gulp_tasks)\<^sup>+"
proof -
  have "acyclic (prereq gulp_tasks)"
    by (rule acyclicI_order [where f = height]) (rule prereq_height)
  then show ?thesis
    by (simp add: acyclic_def)
qed

section \<open>Properties of the watch handler and of \<open>svg-clean\<close>\<close>

text \<open>
  C5, as the code has it: the handler runs the lint on the file's path, without failing
  and with logging, for an \<open>added\<close> event as well as for a \<open>changed\<close> event, and does
  nothing for any other kind of event.
\<close>

theorem sass_watch_handler_added_or_changed:
  "(ev_type ev = ''added'' \<or> ev_type ev = ''changed''
      \<longrightarrow> sass_watch_handler ev = [SasslintTask (ev_path ev) False True])
   \<and> (ev_type ev \<noteq> ''added'' \<and> ev_type ev \<noteq> ''changed'' \<longrightarrow> sass_watch_handler ev = [])"
  by (simp add: sass_watch_handler_def)

theorem sass_watch_handler_added_or_changed_witness:
  "sass_watch_handler \<lparr>ev_type = ''changed'', ev_path = ''scss/_a.scss''\<rparr>
     = [SasslintTask ''scss/_a.scss'' False True]
   \<and> sass_watch_handler \<lparr>ev_type = ''deleted'', ev_path = ''scss/_a.scss''\<rparr> = []"
  using sass_watch_handler_added_or_changed [of "\<lparr>ev_type = ''changed'', ev_path = ''scss/_a.scss''\<rparr>"]
    sass_watch_handler_added_or_changed [of "\<lparr>ev_type = ''deleted'', ev_path = ''scss/_a.scss''\<rparr>"]
  by simp

text \<open>The claim as written fails: a file-added event does run the lint.\<close>

theorem sass_watch_handler_added_triggers:
  "sass_watch_handler \<lparr>ev_type = ''added'', ev_path = ''scss/_a.scss''\<rparr>
     = [SasslintTask ''scss/_a.scss'' False True]"
  by (simp add: sass_watch_handler_def)

text \<open>When the deletion succeeds, \<open>svg-clean\<close> calls its callback once, with no error.\<close>

lemma svg_clean_fulfilled:
  "svg_clean (Fulfilled deleted) = [Cb None] \<and> signals_completion (svg_clean (Fulfilled deleted))"
  by (simp add: svg_clean_def signals_completion_def)

text \<open>
  C3: the task is to signal completion whatever the outcome of the deletion. The code
  misses the failure: \<open>then\<close> is given no handler for a rejection, so when the deletion
  fails with a permission error the callback is never called, where the handlers of
  \<open>spawnTask\<close> call theirs on every failure.
\<close>

theorem svg_clean_rejected_no_callback:
  "svg_clean (Rejected (JsError ''Error'' ''EACCES: permission denied''))
     = [UnhandledRejection (JsError ''Error'' ''EACCES: permission denied'')]
   \<and> \<not> signals_completion (svg_clean (Rejected (JsError ''Error'' ''EACCES: permission denied'')))"
  by (simp add: svg_clean_def signals_completion_def)

section \<open>The array of spawned processes\<close>

text \<open>What holds of every world the supervisor can reach from the initial one.\<close>

lemma spawned_step: "\<exists>ys. spawned (step w e) = spawned w @ ys"
  by (cases e) (auto simp: spawnTask_def Let_def process_on_exit_def split: option.splits)

lemma spawned_foldl: "\<exists>ys. spawned (foldl step w es) = spawned w @ ys"
proof (induction es arbitrary: w)
  case Nil
  then show ?case by simp
next
  case (Cons e es)
  obtain ys where ys: "spawned (step w e) = spawned w @ ys"
    using spawned_step by blast
  obtain zs where "spawned (foldl step (step w e) es) = spawned (step w e) @ zs"
    using Cons.IH by blast
  with ys show ?case by simp
qed

lemma supervised_step: "supervised w \<Longrightarrow> supervised (step w e)"
  by (cases e)
     (auto simp: supervised_def spawnTask_def Let_def process_on_exit_def split: option.splits)

lemma supervised_foldl: "supervised w \<Longrightarrow> supervised (foldl step w es)"
  by (induction es arbitrary: w) (simp_all add: supervised_step)

lemma supervised_init: "supervised init"
  by (simp add: supervised_def init_def)

text \<open>
  C2, as the code has it: \<open>spawned\<close> only grows, by one handle for each call of
  \<open>spawnTask\<close>, and nothing is ever removed from it. At shutdown it holds every child
  ever spawned, in spawn order, the children still running among them, and \<open>kill\<close> is
  called on each.
\<close>

theorem spawned_append_only:
  "(\<exists>ys. spawned (run es w) = spawned w @ ys)
   \<and> spawned (run es init) = [0..<next_pid (run es init)]
   \<and> live (run es init) \<subseteq> set (spawned (run es init))
   \<and> effects (step (run es init) ProcessExit)
       = effects (run es init) @ map Kill (spawned (run es init))"
proof -
  have "supervised (run es init)"
    unfolding run_def by (rule supervised_foldl [OF supervised_init])
  then have a: "spawned (run es init) = [0..<next_pid (run es init)]"
    and b: "live (run es init) \<subseteq> set (spawned (run es init))"
    unfolding supervised_def by blast+
  have c: "\<exists>ys. spawned (run es w) = spawned w @ ys"
    unfolding run_def by (rule spawned_foldl)
  have d: "effects (step (run es init) ProcessExit)
       = effects (run es init) @ map Kill (spawned (run es init))"
    by (simp add: process_on_exit_def)
  from a b c d show ?thesis by blast
qed

theorem spawned_append_only_witness:
  "spawned (run [SpawnTask ''nyc'' [] None True, SpawnTask ''nyc'' [] (Some False) True,
                 ChildExit 0 (Some 0)] init) = [0, 1]
   \<and> live (run [SpawnTask ''nyc'' [] None True, SpawnTask ''nyc'' [] (Some False) True,
               ChildExit 0 (Some 0)] init) \<subseteq> {0, 1}
   \<and> effects (step (run [SpawnTask ''nyc'' [] None True, SpawnTask ''nyc'' [] (Some False) True,
                         ChildExit 0 (Some 0)] init) ProcessExit)
       = [Cb None, Kill 0, Kill 1]"
  using spawned_append_only [of "[SpawnTask ''nyc'' [] None True,
      SpawnTask ''nyc'' [] (Some False) True, ChildExit 0 (Some 0)]" init]
  by (simp add: run_def init_def spawnTask_def on_exit_event_def)

text \<open>
  The claim as written fails: a child that has exited stays in \<open>spawned\<close>, so at shutdown
  the array is not the set of children still running.
\<close>

theorem spawned_keeps_exited_child:
  "spawned (run [SpawnTask ''nyc'' [] None True, ChildExit 0 (Some 0)] init) = [0]
   \<and> live (run [SpawnTask ''nyc'' [] None True, ChildExit 0 (Some 0)] init) = {}"
  by (simp add: run_def init_def spawnTask_def)

section \<open>Properties of the dependency resolver\<close>

declare visit.simps [simp del]

lemma task_graph_closed:
  "task_graph reg \<Longrightarrow> map_of reg t = Some ps \<Longrightarrow> p \<in> set ps \<Longrightarrow> p \<in> dom (map_of reg)"
proof -
  assume tg: "task_graph reg" and t: "map_of reg t = Some ps" and p: "p \<in> set ps"
  from t have "(t, ps) \<in> set reg"
    by (rule map_of_SomeD)
  then have "t \<in> set (map fst reg)"
    by force
  with tg t have "list_all (\<lambda>p. map_of reg p \<noteq> None) ps"
    by (auto simp: task_graph_def list_all_iff)
  with p show ?thesis
    by (auto simp: list_all_iff)
qed

lemma index_of_nth: "distinct xs \<Longrightarrow> i < length xs \<Longrightarrow> index_of xs (xs ! i) = i"
proof (induction xs arbitrary: i)
  case Nil
  then show ?case by simp
next
  case (Cons y ys)
  then show ?case by (cases i) auto
qed

lemma ordered_Nil: "ordered reg []"
  by (simp add: ordered_def)

lemma ordered_snoc:
  assumes "ordered reg xs" "n \<notin> set xs" "map_of reg n = Some ps" "set ps \<subseteq> set xs"
  shows "ordered reg (xs @ [n])"
proof -
  have "\<exists>qs. map_of reg ((xs @ [n]) ! i) = Some qs \<and> set qs \<subseteq> set (take i (xs @ [n]))"
    if "i < length (xs @ [n])" for i
  proof (cases "i < length xs")
    case True
    with assms(1) show ?thesis by (simp add: ordered_def nth_append)
  next
    case False
    with that have "i = length xs" by simp
    with assms(3,4) show ?thesis by simp
  qed
  with assms(1,2) show ?thesis by (simp add: ordered_def)
qed

lemma ordered_prereq:
  assumes "ordered reg xs" "t \<in> set xs" "(t, p) \<in> prereq reg"
  shows "precedes xs p t"
proof -
  from assms(2) obtain i where i: "i < length xs" "xs ! i = t"
    by (auto simp: in_set_conv_nth)
  with assms(1) obtain ps where ps: "map_of reg t = Some ps" "set ps \<subseteq> set (take i xs)"
    by (auto simp: ordered_def)
  with assms(3) have "p \<in> set (take i xs)"
    by (auto simp: prereq_def)
  then obtain j where j: "j < i" "j < length xs" "xs ! j = p"
    using i(1) by (auto simp: in_set_conv_nth)
  from assms(1) have d: "distinct xs" by (simp add: ordered_def)
  have "index_of xs p = j" "index_of xs t = i"
    using index_of_nth [OF d j(2)] index_of_nth [OF d i(1)] i j by simp_all
  with j i show ?thesis
    by (auto simp: precedes_def)
qed

lemma precedes_trans: "precedes xs a b \<Longrightarrow> precedes xs b c \<Longrightarrow> precedes xs a c"
  by (auto simp: precedes_def)

lemma ordered_trancl:
  assumes "ordered reg xs" "(t, p) \<in> (prereq reg)\<^sup>+" "t \<in> set xs"
  shows "precedes xs p t"
  using assms(2)
proof (induction rule: trancl_induct)
  case (base y)
  show ?case by (rule ordered_prereq [OF assms(1) assms(3) base])
next
  case (step y z)
  from step.IH have yt: "precedes xs y t" .
  then have "y \<in> set xs" by (simp add: precedes_def)
  then have zy: "precedes xs z y" by (rule ordered_prereq [OF assms(1) _ step.hyps(2)])
  show ?case by (rule precedes_trans [OF zy yt])
qed

lemma ordered_reachable:
  assumes "ordered reg xs" "(t, p) \<in> (prereq reg)\<^sup>*" "t \<in> set xs"
  shows "p \<in> set xs"
proof (cases "t = p")
  case True
  with assms(3) show ?thesis by simp
next
  case False
  with assms(2) have "(t, p) \<in> (prereq reg)\<^sup>+" by (simp add: rtrancl_eq_or_trancl)
  from ordered_trancl [OF assms(1) this assms(3)] show ?thesis by (simp add: precedes_def)
qed

lemma visit_sound:
  "ordered reg visited \<Longrightarrow> visit reg gray visited n = Inr v' \<Longrightarrow>
     ordered reg v' \<and> n \<in> set v' \<and>
     (\<exists>new. v' = visited @ new \<and> set new \<inter> set gray = {} \<and> set new \<subseteq> (prereq reg)\<^sup>* `` {n})"
  and visit_all_sound:
  "ordered reg visited \<Longrightarrow> visit_all reg gray visited ps = Inr v' \<Longrightarrow>
     ordered reg v' \<and> set ps \<subseteq> set v' \<and>
     (\<exists>new. v' = visited @ new \<and> set new \<inter> set gray = {} \<and> set new \<subseteq> (prereq reg)\<^sup>* `` set ps)"
proof (induction reg gray visited n and reg gray visited ps arbitrary: v' and v'
       rule: visit_visit_all.induct)
  case (1 reg gray visited n)
  show ?case
  proof (cases "n \<in> set visited")
    case True
    with 1(2,3) show ?thesis by (simp add: visit.simps)
  next
    case False
    with 1(3) have ng: "n \<notin> set gray"
      by (auto simp: visit.simps split: if_splits)
    with False 1(3) obtain ps v1 where
      ps: "get_task reg n = Inr ps" and v1: "visit_all reg (n # gray) visited ps = Inr v1"
      and v': "v' = v1 @ [n]"
      by (auto simp: visit.simps split: sum.splits)
    from 1(1) [OF False ng ps 1(2) v1] obtain new where
      o: "ordered reg v1" and sub: "set ps \<subseteq> set v1" and new: "v1 = visited @ new"
      "set new \<inter> set (n # gray) = {}" "set new \<subseteq> (prereq reg)\<^sup>* `` set ps"
      by blast
    from ps have m: "map_of reg n = Some ps"
      by (auto simp: get_task_def split: option.splits)
    from new False have "n \<notin> set v1" by auto
    from ordered_snoc [OF o this m sub] have "ordered reg v'" by (simp add: v')
    moreover have "set ps \<subseteq> prereq reg `` {n}" using m by (auto simp: prereq_def)
    then have "(prereq reg)\<^sup>* `` set ps \<subseteq> (prereq reg)\<^sup>* `` {n}"
      by (auto intro: converse_rtrancl_into_rtrancl)
    with new ng have "v' = visited @ (new @ [n]) \<and> set (new @ [n]) \<inter> set gray = {}
        \<and> set (new @ [n]) \<subseteq> (prereq reg)\<^sup>* `` {n}"
      by (auto simp: v')
    ultimately show ?thesis unfolding v' by simp
  qed
next
  case (2 reg gray visited)
  then show ?case by simp
next
  case (3 reg gray visited p ps)
  from 3(4) obtain v1 where v1: "visit reg gray visited p = Inr v1"
    and rest: "visit_all reg gray v1 ps = Inr v'"
    by (auto split: sum.splits)
  from 3(1) [OF 3(3) v1] obtain new1 where
    o1: "ordered reg v1" and p: "p \<in> set v1" and new1: "v1 = visited @ new1"
    "set new1 \<inter> set gray = {}" "set new1 \<subseteq> (prereq reg)\<^sup>* `` {p}"
    by blast
  from 3(2) [OF v1 o1 rest] obtain new2 where
    o2: "ordered reg v'" and ps: "set ps \<subseteq> set v'" and new2: "v' = v1 @ new2"
    "set new2 \<inter> set gray = {}" "set new2 \<subseteq> (prereq reg)\<^sup>* `` set ps"
    by blast
  have "v' = visited @ (new1 @ new2) \<and> set (new1 @ new2) \<inter> set gray = {}
      \<and> set (new1 @ new2) \<subseteq> (prereq reg)\<^sup>* `` set (p # ps)"
    using new1 new2 by auto
  moreover have "set (p # ps) \<subseteq> set v'" using p ps new2 by auto
  ultimately show ?case using o2 by blast
qed


lemma get_task_Inr: "get_task reg n = Inr ps \<longleftrightarrow> map_of reg n = Some ps"
  by (auto simp: get_task_def split: option.splits)

lemma prereq_trancl_step:
  "(g, n) \<in> (prereq reg)\<^sup>+ \<Longrightarrow> map_of reg n = Some ps \<Longrightarrow> p \<in> set ps \<Longrightarrow> (g, p) \<in> (prereq reg)\<^sup>+"
  by (rule trancl_into_trancl) (auto simp: prereq_def)

lemma visit_succeeds:
  "task_graph reg \<Longrightarrow> acyclic (prereq reg) \<Longrightarrow> n \<in> dom (map_of reg) \<Longrightarrow>
     \<forall>g \<in> set gray. (g, n) \<in> (prereq reg)\<^sup>+ \<Longrightarrow> \<exists>v'. visit reg gray visited n = Inr v'"
  and visit_all_succeeds:
  "task_graph reg \<Longrightarrow> acyclic (prereq reg) \<Longrightarrow> set ps \<subseteq> dom (map_of reg) \<Longrightarrow>
     \<forall>g \<in> set gray. \<forall>p \<in> set ps. (g, p) \<in> (prereq reg)\<^sup>+ \<Longrightarrow>
     \<exists>v'. visit_all reg gray visited ps = Inr v'"
proof (induction reg gray visited n and reg gray visited ps rule: visit_visit_all.induct)
  case (1 reg gray visited n)
  show ?case
  proof (cases "n \<in> set visited")
    case True
    then show ?thesis by (simp add: visit.simps)
  next
    case False
    have ng: "n \<notin> set gray"
    proof
      assume "n \<in> set gray"
      with 1(5) have "(n, n) \<in> (prereq reg)\<^sup>+" by blast
      with 1(3) show False by (simp add: acyclic_def)
    qed
    from 1(4) obtain ps where m: "map_of reg n = Some ps" by auto
    then have ps: "get_task reg n = Inr ps" by (simp add: get_task_Inr)
    have sub: "set ps \<subseteq> dom (map_of reg)"
      using task_graph_closed [OF 1(2) m] by blast
    have anc: "\<forall>g \<in> set (n # gray). \<forall>p \<in> set ps. (g, p) \<in> (prereq reg)\<^sup>+"
    proof (intro ballI)
      fix g p assume g: "g \<in> set (n # gray)" and p: "p \<in> set ps"
      show "(g, p) \<in> (prereq reg)\<^sup>+"
      proof (cases "g = n")
        case True
        with m p show ?thesis by (auto simp: prereq_def)
      next
        case False
        with g 1(5) have "(g, n) \<in> (prereq reg)\<^sup>+" by auto
        then show ?thesis using m p by (rule prereq_trancl_step)
      qed
    qed
    from 1(1) [OF False ng ps 1(2) 1(3) sub anc] obtain v1 where
      "visit_all reg (n # gray) visited ps = Inr v1" by blast
    with False ng ps show ?thesis by (simp add: visit.simps)
  qed
next
  case (2 reg gray visited)
  show ?case by simp
next
  case (3 reg gray visited p ps)
  from 3(5) have p: "p \<in> dom (map_of reg)" by simp
  from 3(6) have gp: "\<forall>g \<in> set gray. (g, p) \<in> (prereq reg)\<^sup>+" by simp
  from 3(1) [OF 3(3) 3(4) p gp] obtain v1 where v1: "visit reg gray visited p = Inr v1"
    by blast
  from 3(5) have sub: "set ps \<subseteq> dom (map_of reg)" by simp
  from 3(6) have anc: "\<forall>g \<in> set gray. \<forall>p \<in> set ps. (g, p) \<in> (prereq reg)\<^sup>+" by simp
  from 3(2) [OF v1 3(3) 3(4) sub anc] obtain v2 where "visit_all reg gray v1 ps = Inr v2"
    by blast
  with v1 show ?case by simp
qed

lemma visit_known:
  "task_graph reg \<Longrightarrow> n \<in> dom (map_of reg) \<Longrightarrow> visit reg gray visited n \<noteq> Inl (UnknownTaskError u)"
  and visit_all_known:
  "task_graph reg \<Longrightarrow> set ps \<subseteq> dom (map_of reg) \<Longrightarrow>
     visit_all reg gray visited ps \<noteq> Inl (UnknownTaskError u)"
proof (induction reg gray visited n and reg gray visited ps rule: visit_visit_all.induct)
  case (1 reg gray visited n)
  show ?case
  proof (cases "n \<in> set visited \<or> n \<in> set gray")
    case True
    then show ?thesis by (auto simp: visit.simps)
  next
    case False
    from 1(3) obtain ps where m: "map_of reg n = Some ps" by auto
    then have ps: "get_task reg n = Inr ps" by (simp add: get_task_Inr)
    have sub: "set ps \<subseteq> dom (map_of reg)"
      using task_graph_closed [OF 1(2) m] by blast
    from False have a: "n \<notin> set visited" and b: "n \<notin> set gray" by simp_all
    from 1(1) [OF a b ps 1(2) sub]
    have "visit_all reg (n # gray) visited ps \<noteq> Inl (UnknownTaskError u)" .
    with a b ps show ?thesis by (auto simp: visit.simps split: sum.splits)
  qed
next
  case (2 reg gray visited)
  show ?case by simp
next
  case (3 reg gray visited p ps)
  from 3(4) have p: "p \<in> dom (map_of reg)" and sub: "set ps \<subseteq> dom (map_of reg)" by simp_all
  from 3(1) [OF 3(3) p] have a: "visit reg gray visited p \<noteq> Inl (UnknownTaskError u)" .
  show ?case
  proof (cases "visit reg gray visited p")
    case (Inl e)
    with a show ?thesis by simp
  next
    case (Inr v1)
    from 3(2) [OF Inr 3(3) sub] Inr show ?thesis by simp
  qed
qed


lemma remdups_append_filter:
  "remdups (xs @ ys) = filter (\<lambda>x. x \<notin> set ys) (remdups xs) @ remdups ys"
  by (induction xs) auto

lemma keep_first_append:
  "distinct r \<Longrightarrow> keep_first (r @ zs) = r @ filter (\<lambda>x. x \<notin> set r) (keep_first zs)"
  by (simp add: keep_first_def remdups_append_filter rev_filter distinct_remdups_id)

lemma filter_new_absorbed:
  "set new \<subseteq> set D \<Longrightarrow> filter (\<lambda>x. x \<notin> set D) (d @ new) = filter (\<lambda>x. x \<notin> set D) d"
  by (auto simp: filter_empty_conv)

lemma visit_relative:
  "visit reg g1 d1 n = Inr e1 \<Longrightarrow> visit reg g2 d2 n = Inr e2 \<Longrightarrow> ordered reg D \<Longrightarrow>
     ordered reg d2 \<Longrightarrow> d1 = D @ filter (\<lambda>x. x \<notin> set D) d2 \<Longrightarrow>
     e1 = D @ filter (\<lambda>x. x \<notin> set D) e2"
  and visit_all_relative:
  "visit_all reg g1 d1 ps = Inr e1 \<Longrightarrow> visit_all reg g2 d2 ps = Inr e2 \<Longrightarrow> ordered reg D \<Longrightarrow>
     ordered reg d2 \<Longrightarrow> d1 = D @ filter (\<lambda>x. x \<notin> set D) d2 \<Longrightarrow>
     e1 = D @ filter (\<lambda>x. x \<notin> set D) e2"
proof (induction reg g1 d1 n and reg g1 d1 ps arbitrary: g2 d2 e1 e2 and g2 d2 e1 e2
       rule: visit_visit_all.induct)
  case (1 reg g1 d1 n)
  show ?case
  proof (cases "n \<in> set d1")
    case True
    with 1(2) have e1: "e1 = d1" by (simp add: visit.simps)
    show ?thesis
    proof (cases "n \<in> set d2")
      case True
      with 1(3) have "e2 = d2" by (simp add: visit.simps)
      with e1 1(6) show ?thesis by simp
    next
      case False
      with True 1(6) have nD: "n \<in> set D" by auto
      from visit_sound [OF 1(5) 1(3)] obtain new where
        new: "e2 = d2 @ new" "set new \<subseteq> (prereq reg)\<^sup>* `` {n}" by blast
      have "set new \<subseteq> set D"
        using new(2) ordered_reachable [OF 1(4) _ nD] by blast
      from filter_new_absorbed [OF this] new(1) e1 1(6) show ?thesis by simp
    qed
  next
    case False
    with 1(6) have nD: "n \<notin> set D" and nd2: "n \<notin> set d2" by auto
    from False 1(2) have ng1: "n \<notin> set g1"
      by (auto simp: visit.simps split: if_splits)
    from nd2 1(3) have ng2: "n \<notin> set g2"
      by (auto simp: visit.simps split: if_splits)
    from False ng1 1(2) obtain ps f1 where
      ps: "get_task reg n = Inr ps" and f1: "visit_all reg (n # g1) d1 ps = Inr f1"
      and e1: "e1 = f1 @ [n]"
      by (auto simp: visit.simps split: sum.splits)
    from nd2 ng2 1(3) ps obtain f2 where
      f2: "visit_all reg (n # g2) d2 ps = Inr f2" and e2: "e2 = f2 @ [n]"
      by (auto simp: visit.simps split: sum.splits)
    from 1(1) [OF False ng1 ps f1 f2 1(4) 1(5) 1(6)]
    have "f1 = D @ filter (\<lambda>x. x \<notin> set D) f2" .
    with e1 e2 nD show ?thesis by simp
  qed
next
  case (2 reg g1 d1)
  then show ?case by simp
next
  case (3 reg g1 d1 p ps)
  from 3(3) obtain m1 where m1: "visit reg g1 d1 p = Inr m1"
    and r1: "visit_all reg g1 m1 ps = Inr e1"
    by (auto split: sum.splits)
  from 3(4) obtain m2 where m2: "visit reg g2 d2 p = Inr m2"
    and r2: "visit_all reg g2 m2 ps = Inr e2"
    by (auto split: sum.splits)
  from 3(1) [OF m1 m2 3(5) 3(6) 3(7)] have rel: "m1 = D @ filter (\<lambda>x. x \<notin> set D) m2" .
  from visit_sound [OF 3(6) m2] have o: "ordered reg m2" by blast
  from 3(2) [OF m1 r1 r2 3(5) o rel] show ?case .
qed

lemma visit_gray_irrelevant:
  assumes "visit reg g1 [] n = Inr e1" "visit reg g2 [] n = Inr e2"
  shows "e1 = e2"
  using visit_relative [OF assms ordered_Nil ordered_Nil] by simp

lemma visit_all_prerequisites:
  "task_graph reg \<Longrightarrow> acyclic (prereq reg) \<Longrightarrow> set ps \<subseteq> dom (map_of reg) \<Longrightarrow>
     \<forall>g \<in> set gray. \<forall>p \<in> set ps. (g, p) \<in> (prereq reg)\<^sup>+ \<Longrightarrow>
     \<exists>rs. list_all2 (\<lambda>p r. resolve reg p = Inr r) ps rs
          \<and> visit_all reg gray [] ps = Inr (keep_first (concat rs))"
proof (induction ps)
  case Nil
  then show ?case by (simp add: keep_first_def)
next
  case (Cons p ps)
  from Cons.prems(3) have p: "p \<in> dom (map_of reg)" and sub: "set ps \<subseteq> dom (map_of reg)"
    by simp_all
  from Cons.prems(4) have gp: "\<forall>g \<in> set gray. (g, p) \<in> (prereq reg)\<^sup>+"
    and anc: "\<forall>g \<in> set gray. \<forall>p \<in> set ps. (g, p) \<in> (prereq reg)\<^sup>+" by simp_all
  from Cons.IH [OF Cons.prems(1,2) sub anc] obtain rs where
    rs: "list_all2 (\<lambda>p r. resolve reg p = Inr r) ps rs"
    and all0: "visit_all reg gray [] ps = Inr (keep_first (concat rs))" by blast
  from visit_succeeds [OF Cons.prems(1,2) p, of "[]" "[]"] obtain r where
    r: "resolve reg p = Inr r" by (auto simp: resolve_def)
  from visit_succeeds [OF Cons.prems(1,2) p gp, of "[]"] obtain m where
    m: "visit reg gray [] p = Inr m" by blast
  from visit_gray_irrelevant [OF m] r have mr: "m = r" by (simp add: resolve_def)
  from visit_sound [OF ordered_Nil m] mr have o: "ordered reg r" by blast
  then have d: "distinct r" by (simp add: ordered_def)
  from visit_all_succeeds [OF Cons.prems(1,2) sub anc, of r] obtain e where
    e: "visit_all reg gray r ps = Inr e" by blast
  have "e = r @ filter (\<lambda>x. x \<notin> set r) (keep_first (concat rs))"
    by (rule visit_all_relative [OF e all0 o ordered_Nil]) simp
  with keep_first_append [OF d, of "concat rs"] have "e = keep_first (concat (r # rs))"
    by simp
  with e m mr have "visit_all reg gray [] (p # ps) = Inr (keep_first (concat (r # rs)))"
    by simp
  moreover from r rs have "list_all2 (\<lambda>p r. resolve reg p = Inr r) (p # ps) (r # rs)"
    by simp
  ultimately show ?case by blast
qed


lemma visit_cyclic_error:
  "\<forall>g \<in> set gray. (g, n) \<in> (prereq reg)\<^sup>+ \<Longrightarrow>
     visit reg gray visited n = Inl (CyclicDependencyError t) \<Longrightarrow> (t, t) \<in> (prereq reg)\<^sup>+"
  and visit_all_cyclic_error:
  "\<forall>g \<in> set gray. \<forall>p \<in> set ps. (g, p) \<in> (prereq reg)\<^sup>+ \<Longrightarrow>
     visit_all reg gray visited ps = Inl (CyclicDependencyError t) \<Longrightarrow> (t, t) \<in> (prereq reg)\<^sup>+"
proof (induction reg gray visited n and reg gray visited ps rule: visit_visit_all.induct)
  case (1 reg gray visited n)
  from 1(3) have nv: "n \<notin> set visited" by (auto simp: visit.simps split: if_splits)
  show ?case
  proof (cases "n \<in> set gray")
    case True
    with nv 1(3) have "t = n" by (simp add: visit.simps)
    with True 1(2) show ?thesis by blast
  next
    case False
    with nv 1(3) obtain ps where ps: "get_task reg n = Inr ps"
      and err: "visit_all reg (n # gray) visited ps = Inl (CyclicDependencyError t)"
      by (auto simp: visit.simps get_task_def split: sum.splits option.splits)
    from ps have m: "map_of reg n = Some ps" by (simp add: get_task_Inr)
    have anc: "\<forall>g \<in> set (n # gray). \<forall>p \<in> set ps. (g, p) \<in> (prereq reg)\<^sup>+"
    proof (intro ballI)
      fix g p assume g: "g \<in> set (n # gray)" and p: "p \<in> set ps"
      show "(g, p) \<in> (prereq reg)\<^sup>+"
      proof (cases "g = n")
        case True
        with m p show ?thesis by (auto simp: prereq_def)
      next
        case False
        with g 1(2) have "(g, n) \<in> (prereq reg)\<^sup>+" by auto
        then show ?thesis using m p by (rule prereq_trancl_step)
      qed
    qed
    from 1(1) [OF nv False ps anc err] show ?thesis .
  qed
next
  case (2 reg gray visited)
  then show ?case by simp
next
  case (3 reg gray visited p ps)
  from 3(3) have gp: "\<forall>g \<in> set gray. (g, p) \<in> (prereq reg)\<^sup>+"
    and anc: "\<forall>g \<in> set gray. \<forall>p \<in> set ps. (g, p) \<in> (prereq reg)\<^sup>+" by simp_all
  show ?case
  proof (cases "visit reg gray visited p")
    case (Inl e)
    with 3(4) have "visit reg gray visited p = Inl (CyclicDependencyError t)" by simp
    from 3(1) [OF gp this] show ?thesis .
  next
    case (Inr v1)
    with 3(4) have "visit_all reg gray v1 ps = Inl (CyclicDependencyError t)" by simp
    from 3(2) [OF Inr anc this] show ?thesis .
  qed
qed

lemma abc_tasks_acyclic: "acyclic (prereq abc_tasks)"
proof (rule acyclicI_order)
  fix a b assume "(a, b) \<in> prereq abc_tasks"
  then show "length (the (map_of abc_tasks b)) < length (the (map_of abc_tasks a))"
    by (auto simp: prereq_def abc_tasks_def split: if_splits)
qed

lemma ab_cycle_loop: "(''A'', ''A'') \<in> (prereq ab_cycle)\<^sup>+"
proof -
  have "(''A'', ''B'') \<in> prereq ab_cycle" "(''B'', ''A'') \<in> prereq ab_cycle"
    by (simp_all add: prereq_def ab_cycle_def)
  then show ?thesis by (rule trancl_into_trancl [OF r_into_trancl])
qed

text \<open>
  C7: in a task graph without cycles, \<open>resolve\<close> of a registered task returns an order
  (it terminates, being a total function) that holds exactly the tasks reachable from it,
  each once, with every prerequisite before its dependent. The order is depth-first in
  declaration order: it is the orders of the task's prerequisites, one after the other as
  declared, without what came earlier, followed by the task itself. For A, B with
  prerequisite A, and C with prerequisites A and B, \<open>resolve\<close> of C is A, B, C.
\<close>

theorem resolve_acyclic:
  assumes "task_graph reg" and "acyclic (prereq reg)" and "map_of reg name = Some ps"
  shows "(\<exists>xs rs. resolve reg name = Inr xs
            \<and> distinct xs
            \<and> set xs = (prereq reg)\<^sup>* `` {name}
            \<and> (\<forall>t p. t \<in> set xs \<and> (t, p) \<in> prereq reg \<longrightarrow> precedes xs p t)
            \<and> list_all2 (\<lambda>p r. resolve reg p = Inr r) ps rs
            \<and> xs = keep_first (concat rs) @ [name])
         \<and> resolve abc_tasks ''C'' = Inr [''A'', ''B'', ''C'']"
proof -
  from assms(3) have reg: "name \<in> dom (map_of reg)" by auto
  from visit_succeeds [OF assms(1,2) reg, of "[]" "[]"] obtain xs where
    xs: "resolve reg name = Inr xs" by (auto simp: resolve_def)
  then have v: "visit reg [] [] name = Inr xs" by (simp add: resolve_def)
  from visit_sound [OF ordered_Nil v] have o: "ordered reg xs" and n: "name \<in> set xs"
    and sub: "set xs \<subseteq> (prereq reg)\<^sup>* `` {name}" by auto
  from o have d: "distinct xs" by (simp add: ordered_def)
  have "(prereq reg)\<^sup>* `` {name} \<subseteq> set xs"
    using ordered_reachable [OF o _ n] by blast
  with sub have s: "set xs = (prereq reg)\<^sup>* `` {name}" by blast
  have p: "\<forall>t p. t \<in> set xs \<and> (t, p) \<in> prereq reg \<longrightarrow> precedes xs p t"
    using ordered_prereq [OF o] by blast
  have sub_ps: "set ps \<subseteq> dom (map_of reg)"
    using task_graph_closed [OF assms(1,3)] by blast
  have anc: "\<forall>g \<in> set [name]. \<forall>p \<in> set ps. (g, p) \<in> (prereq reg)\<^sup>+"
    using assms(3) by (auto simp: prereq_def)
  from visit_all_prerequisites [OF assms(1,2) sub_ps anc] obtain rs where
    rs: "list_all2 (\<lambda>p r. resolve reg p = Inr r) ps rs"
    and va: "visit_all reg [name] [] ps = Inr (keep_first (concat rs))" by blast
  from assms(3) va have "visit reg [] [] name = Inr (keep_first (concat rs) @ [name])"
    by (simp add: visit.simps get_task_def)
  with v have e: "xs = keep_first (concat rs) @ [name]" by simp
  have c: "resolve abc_tasks ''C'' = Inr [''A'', ''B'', ''C'']"
    by (simp add: resolve_def visit.simps get_task_def abc_tasks_def)
  from xs d s p rs e c show ?thesis by blast
qed

theorem resolve_acyclic_witness:
  "task_graph abc_tasks \<and> acyclic (prereq abc_tasks)
   \<and> map_of abc_tasks ''C'' = Some [''A'', ''B'']
   \<and> resolve abc_tasks ''C'' = Inr [''A'', ''B'', ''C'']
   \<and> set [''A'', ''B'', ''C''] = (prereq abc_tasks)\<^sup>* `` {''C''}
   \<and> precedes [''A'', ''B'', ''C''] ''A'' ''B''
   \<and> precedes [''A'', ''B'', ''C''] ''B'' ''C''"
proof -
  have a: "task_graph abc_tasks" by (simp add: task_graph_def abc_tasks_def)
  have b: "map_of abc_tasks ''C'' = Some [''A'', ''B'']" by (simp add: abc_tasks_def)
  from resolve_acyclic [OF a abc_tasks_acyclic b] obtain xs where
    xs: "resolve abc_tasks ''C'' = Inr xs" "set xs = (prereq abc_tasks)\<^sup>* `` {''C''}"
    "\<forall>t p. t \<in> set xs \<and> (t, p) \<in> prereq abc_tasks \<longrightarrow> precedes xs p t"
    and c: "resolve abc_tasks ''C'' = Inr [''A'', ''B'', ''C'']"
    by blast
  from xs(1) c have e: "xs = [''A'', ''B'', ''C'']" by simp
  have "(''B'', ''A'') \<in> prereq abc_tasks" "(''C'', ''B'') \<in> prereq abc_tasks"
    by (simp_all add: prereq_def abc_tasks_def)
  with xs(3) e have "precedes [''A'', ''B'', ''C''] ''A'' ''B''"
    "precedes [''A'', ''B'', ''C''] ''B'' ''C''"
    by simp_all
  with a abc_tasks_acyclic b c xs(2) e show ?thesis by simp
qed

text \<open>
  C8: in a task graph with a cycle reachable from the requested task, \<open>resolve\<close> returns
  (it is a total function) a CyclicDependencyError, which names a task on a cycle, and the
  run ends with this error before any task action has started.
\<close>

theorem resolve_cyclic:
  assumes "task_graph reg" and "(name, c) \<in> (prereq reg)\<^sup>*" and "(c, c) \<in> (prereq reg)\<^sup>+"
  shows "\<exists>t. resolve reg name = Inl (CyclicDependencyError t)
            \<and> (t, t) \<in> (prereq reg)\<^sup>+
            \<and> run_task reg name = (Some (CyclicDependencyError t), [])"
proof -
  from assms(3) obtain z where "(c, z) \<in> prereq reg" by (auto dest: tranclD)
  then have "c \<in> dom (map_of reg)" by (auto simp: prereq_def)
  with assms(2) have reg: "name \<in> dom (map_of reg)"
    by (cases rule: converse_rtranclE) (auto simp: prereq_def)
  have no: "resolve reg name \<noteq> Inr xs" for xs
  proof
    assume "resolve reg name = Inr xs"
    then have v: "visit reg [] [] name = Inr xs" by (simp add: resolve_def)
    from visit_sound [OF ordered_Nil v] have o: "ordered reg xs" and n: "name \<in> set xs"
      by auto
    from ordered_reachable [OF o assms(2) n] have "c \<in> set xs" .
    from ordered_trancl [OF o assms(3) this] show False by (simp add: precedes_def)
  qed
  have kn: "resolve reg name \<noteq> Inl (UnknownTaskError u)" for u
    using visit_known [OF assms(1) reg] by (simp add: resolve_def)
  obtain t where t: "resolve reg name = Inl (CyclicDependencyError t)"
  proof (cases "resolve reg name")
    case (Inl e)
    with kn that show ?thesis by (cases e) blast+
  next
    case (Inr xs)
    with no show ?thesis by blast
  qed
  then have "visit reg [] [] name = Inl (CyclicDependencyError t)" by (simp add: resolve_def)
  from visit_cyclic_error [OF _ this] have "(t, t) \<in> (prereq reg)\<^sup>+" by simp
  with t show ?thesis by (simp add: run_task_def)
qed

theorem resolve_cyclic_witness:
  "task_graph ab_cycle \<and> (''A'', ''A'') \<in> (prereq ab_cycle)\<^sup>* \<and> (''A'', ''A'') \<in> (prereq ab_cycle)\<^sup>+
   \<and> (\<exists>t. resolve ab_cycle ''A'' = Inl (CyclicDependencyError t)
          \<and> (t, t) \<in> (prereq ab_cycle)\<^sup>+
          \<and> run_task ab_cycle ''A'' = (Some (CyclicDependencyError t), []))
   \<and> resolve ab_cycle ''A'' = Inl (CyclicDependencyError ''A'')"
proof -
  have a: "task_graph ab_cycle" by (simp add: task_graph_def ab_cycle_def)
  have b: "(''A'', ''A'') \<in> (prereq ab_cycle)\<^sup>*" by simp
  have c: "resolve ab_cycle ''A'' = Inl (CyclicDependencyError ''A'')"
    by (simp add: resolve_def visit.simps get_task_def ab_cycle_def)
  from resolve_cyclic [OF a b ab_cycle_loop] a b c ab_cycle_loop show ?thesis
    by blast
qed

end
